theory Spec2Isabelle
  imports Main "HOL-Library.Sublist" "HOL-Library.Multiset"
begin

section \<open>Python strings\<close>

text \<open>
  A Python \<^verbatim>\<open>str\<close> is a list of Unicode code points, each the integer that \<^verbatim>\<open>ord\<close>
  gives. A literal of the source is written \<open>ascii ''...''\<close>.
\<close>

type_synonym str = "int list"

definition ascii :: "string \<Rightarrow> str" where
  "ascii s = map of_char s"

datatype py_exception = IndexError | GeneratorFailure str

text \<open>
  Python's case mappings come from the Unicode database of the interpreter: they are
  parameters. \<open>lower U s\<close> is \<^verbatim>\<open>s.lower()\<close> and \<open>capitalize U s\<close> is
  \<^verbatim>\<open>s.capitalize()\<close>; both work on the whole string, since the result for one code
  point can depend on its neighbours and can be longer than one code point.
\<close>

record unicode =
  lower :: "str \<Rightarrow> str"
  capitalize :: "str \<Rightarrow> str"

text \<open>
  The code points \<^verbatim>\<open>str.strip()\<close> removes, those for which \<^verbatim>\<open>str.isspace\<close> holds:
  U+0009 to U+000D, U+001C to U+001F, the space, U+0085, U+00A0, U+1680, U+2000 to
  U+200A, U+2028, U+2029, U+202F, U+205F and U+3000.
\<close>

definition whitespace :: "int list" where
  "whitespace =
     [0x09, 0x0A, 0x0B, 0x0C, 0x0D, 0x1C, 0x1D, 0x1E, 0x1F, 0x20, 0x85, 0xA0, 0x1680,
      0x2000, 0x2001, 0x2002, 0x2003, 0x2004, 0x2005, 0x2006, 0x2007, 0x2008, 0x2009, 0x200A,
      0x2028, 0x2029, 0x202F, 0x205F, 0x3000]"

definition isspace :: "int \<Rightarrow> bool" where
  "isspace c = (c \<in> set whitespace)"

text \<open>\<^verbatim>\<open>s.strip()\<close>\<close>

definition strip :: "str \<Rightarrow> str" where
  "strip s = rev (dropWhile isspace (rev (dropWhile isspace s)))"

text \<open>\<^verbatim>\<open>s.startswith(p)\<close>\<close>

definition startswith :: "str \<Rightarrow> str \<Rightarrow> bool" where
  "startswith s p = prefix p s"

text \<open>
  \<^verbatim>\<open>s.partition(sep)\<close> for a non-empty \<open>sep\<close>: the text before the leftmost
  occurrence of \<open>sep\<close> and the text after it, \<open>None\<close> when \<open>sep\<close> does not occur.
\<close>

fun partition_sep :: "str \<Rightarrow> str \<Rightarrow> (str \<times> str) option" where
  "partition_sep sep [] = None"
| "partition_sep sep (c # cs) =
     (if prefix sep (c # cs) then Some ([], drop (length sep) (c # cs))
      else (case partition_sep sep cs of
              None \<Rightarrow> None
            | Some (a, b) \<Rightarrow> Some (c # a, b)))"

text \<open>
  \<^verbatim>\<open>s.split(sep)\<close>: the pieces between the non-overlapping occurrences of \<open>sep\<close>,
  found from the left. Every call in the source passes a non-empty literal separator
  (Python raises \<^verbatim>\<open>ValueError\<close> on an empty one).
\<close>

function split :: "str \<Rightarrow> str \<Rightarrow> str list" where
  "split s sep =
     (if sep = [] then [s]
      else (case partition_sep sep s of
              None \<Rightarrow> [s]
            | Some (a, b) \<Rightarrow> a # split b sep))"
  by pat_completeness auto
termination
proof (relation "measure (\<lambda>(s, sep). length s)")
  show "wf (measure (\<lambda>(s, sep). length s))" by simp
next
  fix s sep :: str and x2 :: "str \<times> str" and a b :: str
  assume sep: "sep \<noteq> []" and p: "partition_sep sep s = Some x2" and x2: "(a, b) = x2"
  have "partition_sep sep t = Some (u, v) \<Longrightarrow> length v < length t" for t u v
  proof (induction t arbitrary: u)
    case Nil
    then show ?case by simp
  next
    case (Cons c cs)
    show ?case
    proof (cases "prefix sep (c # cs)")
      case True
      with Cons.prems sep show ?thesis by (cases sep) auto
    next
      case False
      with Cons.prems obtain u' where "partition_sep sep cs = Some (u', v)"
        by (auto split: option.splits)
      from Cons.IH [OF this] show ?thesis by simp
    qed
  qed
  from this [of s a b] p x2 show "((b, sep), (s, sep)) \<in> measure (\<lambda>(s, sep). length s)"
    by simp
qed

declare split.simps [simp del]

text \<open>\<^verbatim>\<open>s.split(sep, 1)\<close>: at most one split, so one or two pieces.\<close>

definition split1 :: "str \<Rightarrow> str \<Rightarrow> str list" where
  "split1 s sep = (case partition_sep sep s of None \<Rightarrow> [s] | Some (a, b) \<Rightarrow> [a, b])"

text \<open>\<^verbatim>\<open>xs[i]\<close> for a non-negative index; out of range raises \<^verbatim>\<open>IndexError\<close>.\<close>

definition index :: "'a list \<Rightarrow> nat \<Rightarrow> py_exception + 'a" where
  "index xs i = (if i < length xs then Inr (xs ! i) else Inl IndexError)"

text \<open>
  \<^verbatim>\<open>s.replace(old, new)\<close>: every non-overlapping occurrence of \<open>old\<close>, found from the
  left, becomes \<open>new\<close>. For an empty \<open>old\<close> Python puts \<open>new\<close> before every code point
  and at the end.
\<close>

function replace_from :: "str \<Rightarrow> str \<Rightarrow> str \<Rightarrow> str" where
  "replace_from old new [] = []"
| "replace_from old new (c # cs) =
     (if old \<noteq> [] \<and> prefix old (c # cs)
      then new @ replace_from old new (drop (length old) (c # cs))
      else c # replace_from old new cs)"
  by pat_completeness auto
termination
  by (relation "measure (\<lambda>(old, new, s). length s)") (auto simp: neq_Nil_conv)

definition replace :: "str \<Rightarrow> str \<Rightarrow> str \<Rightarrow> str" where
  "replace s old new =
     (if old = [] then new @ concat (map (\<lambda>c. c # new) s) else replace_from old new s)"

text \<open>\<^verbatim>\<open>sep.join(xs)\<close>\<close>

fun join :: "str \<Rightarrow> str list \<Rightarrow> str" where
  "join sep [] = []"
| "join sep [x] = x"
| "join sep (x # y # ys) = x @ sep @ join sep (y # ys)"

text \<open>\<^verbatim>\<open>str(n)\<close> for a natural number: its decimal digits, from U+0030.\<close>

fun str_nat :: "nat \<Rightarrow> str" where
  "str_nat n =
     (if n < 10 then [0x30 + int n] else str_nat (n div 10) @ [0x30 + int (n mod 10)])"

declare str_nat.simps [simp del]

text \<open>\<^verbatim>\<open>x or y\<close> on strings: \<open>x\<close> unless it is empty.\<close>

definition str_or :: "str \<Rightarrow> str \<Rightarrow> str" where
  "str_or x y = (if x = [] then y else x)"

section \<open>The output parser\<close>

text \<open>
  \<^verbatim>\<open>SPECIAL_TOKENS\<close> is the set of the tokenizer's special tokens, loaded with the
  model. It is a parameter here: the list of the tokens in the order in which the
  \<^verbatim>\<open>for\<close> loop of \<^verbatim>\<open>_clean_special_tokens\<close> visits the set.
\<close>

definition clean_special_tokens :: "str list \<Rightarrow> str \<Rightarrow> str" where
  "clean_special_tokens SPECIAL_TOKENS text =
     (let text = replace text (ascii ''<section>'') [0x0A];
          text = replace text (ascii ''<sep>'') (ascii ''--'');
          text = foldl (\<lambda>text tok. replace text tok []) text SPECIAL_TOKENS
      in strip text)"

text \<open>\<^verbatim>\<open>line.split(":", 1)[1].strip()\<close>\<close>

definition remainder :: "str \<Rightarrow> py_exception + str" where
  "remainder line =
     (case index (split1 line (ascii '':'')) 1 of Inl e \<Rightarrow> Inl e | Inr r \<Rightarrow> Inr (strip r))"

text \<open>
  The \<^verbatim>\<open>for line in lines\<close> loop of \<^verbatim>\<open>parse_recipe_output\<close>, on the three variables
  \<open>title\<close>, \<open>ingredients_line\<close> and \<open>directions_line\<close>.
\<close>

fun scan_lines ::
  "unicode \<Rightarrow> str list \<Rightarrow> str \<times> str \<times> str \<Rightarrow> py_exception + str \<times> str \<times> str"
where
  "scan_lines U [] st = Inr st"
| "scan_lines U (line # rest) (title, ingredients_line, directions_line) =
     (let low = lower U line in
      if startswith low (ascii ''title:'') then
        (case remainder line of
           Inl e \<Rightarrow> Inl e
         | Inr r \<Rightarrow>
             scan_lines U rest
               (str_or r (ascii ''Untitled Recipe''), ingredients_line, directions_line))
      else if startswith low (ascii ''ingredients:'') then
        (case remainder line of
           Inl e \<Rightarrow> Inl e
         | Inr r \<Rightarrow> scan_lines U rest (title, r, directions_line))
      else if startswith low (ascii ''directions:'') then
        (case remainder line of
           Inl e \<Rightarrow> Inl e
         | Inr r \<Rightarrow> scan_lines U rest (title, ingredients_line, r))
      else scan_lines U rest (title, ingredients_line, directions_line))"

text \<open>\<^verbatim>\<open>[s.strip().capitalize() for s in x.split("--") if s.strip()]\<close>\<close>

definition segments :: "unicode \<Rightarrow> str \<Rightarrow> str list" where
  "segments U x =
     map (\<lambda>s. capitalize U (strip s)) (filter (\<lambda>s. strip s \<noteq> []) (split x (ascii ''--'')))"

text \<open>\<^verbatim>\<open>"\n".join(f"{i+1}. {step}" for i, step in enumerate(steps))\<close>\<close>

definition numbered :: "str list \<Rightarrow> str" where
  "numbered steps =
     join [0x0A]
       (map (\<lambda>(i, step). str_nat (i + 1) @ ascii ''. '' @ step) (zip [0 ..< length steps] steps))"

definition parse_recipe_output ::
  "unicode \<Rightarrow> str list \<Rightarrow> str \<Rightarrow> py_exception + str \<times> str \<times> str"
where
  "parse_recipe_output U SPECIAL_TOKENS raw_text =
     (let cleaned = clean_special_tokens SPECIAL_TOKENS raw_text;
          lines = map strip (filter (\<lambda>l. strip l \<noteq> []) (split cleaned [0x0A]))
      in if lines = [] then Inr (ascii ''Untitled Recipe'', [], cleaned)
         else
           (case scan_lines U lines (ascii ''Untitled Recipe'', [], []) of
              Inl e \<Rightarrow> Inl e
            | Inr (title, ingredients_line, directions_line) \<Rightarrow>
                (let title =
                       (if title = ascii ''Untitled Recipe'' then take 80 (lines ! 0) else title);
                     short_desc =
                       (if ingredients_line \<noteq> [] then
                          (let ing_list = segments U ingredients_line
                           in if ing_list \<noteq> []
                              then ascii ''Ingredients: '' @ join (ascii '', '') (take 6 ing_list)
                              else [])
                        else []);
                     instructions =
                       (if directions_line \<noteq> [] then
                          (let steps = segments U directions_line
                           in if steps \<noteq> [] then numbered steps else cleaned)
                        else cleaned)
                 in Inr (take 80 title, take 200 short_desc, instructions))))"

section \<open>The request handler\<close>

record recipe =
  recipe_id :: str
  title :: str
  shortDescription :: str
  instructions :: str

record recipe_request =
  ingredients :: "str list"

datatype log_entry = Info str | Error str

text \<open>
  What a request can change outside its own variables: the prompts the generator was
  called with, the number of identifiers drawn from \<^verbatim>\<open>uuid4\<close>, and the log.
\<close>

record world =
  generator_calls :: "str list"
  uuids_drawn :: nat
  logged :: "log_entry list"

datatype http_result = HTTPException nat str | RecipeResponse "recipe list"

fun str_exception :: "py_exception \<Rightarrow> str" where
  "str_exception IndexError = ascii ''list index out of range''"
| "str_exception (GeneratorFailure msg) = msg"

definition logger :: "log_entry \<Rightarrow> world \<Rightarrow> world" where
  "logger e w = w\<lparr>logged := logged w @ [e]\<rparr>"

text \<open>
  The pipeline is a parameter: from the prompt, \<^verbatim>\<open>num_return_sequences\<close> and
  \<^verbatim>\<open>max_length\<close> to the list of its outputs, each a dictionary that may hold a
  \<^verbatim>\<open>generated_text\<close>, or to the exception it raises.
\<close>

type_synonym pipeline = "str \<Rightarrow> nat \<Rightarrow> nat \<Rightarrow> py_exception + str option list"

definition generate_recipe_text ::
  "pipeline \<Rightarrow> str \<Rightarrow> nat \<Rightarrow> nat \<Rightarrow> world \<Rightarrow> (py_exception + str list) \<times> world"
where
  "generate_recipe_text generator items_str num_recipes max_length w =
     (let prompt = ascii ''items: '' @ items_str;
          w = w\<lparr>generator_calls := generator_calls w @ [prompt]\<rparr>
      in case generator prompt num_recipes max_length of
           Inl e \<Rightarrow>
             (Inl e, logger (Error (ascii ''Error during generation: '' @ str_exception e)) w)
         | Inr outputs \<Rightarrow>
             (Inr (map (\<lambda>opt. strip (case opt of None \<Rightarrow> [] | Some t \<Rightarrow> t)) outputs), w))"

text \<open>
  The \<^verbatim>\<open>for raw in raw_outputs\<close> loop of \<^verbatim>\<open>generate_recipes\<close>. \<^verbatim>\<open>recipes_dict\<close> is
  a list of the keys with their values, in insertion order, as a Python dictionary
  keeps them; \<open>uuid4 n\<close> is the identifier that the \<open>n\<close>-th call of \<^verbatim>\<open>uuid4\<close> gives.
\<close>

fun collect_recipes ::
  "unicode \<Rightarrow> str list \<Rightarrow> (nat \<Rightarrow> str) \<Rightarrow> str list \<Rightarrow> (str \<times> recipe) list \<Rightarrow> world \<Rightarrow>
     (py_exception + (str \<times> recipe) list) \<times> world"
where
  "collect_recipes U SPECIAL_TOKENS uuid4 [] recipes_dict w = (Inr recipes_dict, w)"
| "collect_recipes U SPECIAL_TOKENS uuid4 (raw # raw_outputs) recipes_dict w =
     (case parse_recipe_output U SPECIAL_TOKENS raw of
        Inl e \<Rightarrow> (Inl e, w)
      | Inr (t, short_desc, instr) \<Rightarrow>
          (let key = lower U t in
           if key \<in> set (map fst recipes_dict)
           then collect_recipes U SPECIAL_TOKENS uuid4 raw_outputs recipes_dict w
           else
             (let recipes_dict =
                    recipes_dict @
                      [(key, \<lparr>recipe_id = uuid4 (uuids_drawn w), title = t,
                              shortDescription = short_desc, instructions = instr\<rparr>)];
                  w = w\<lparr>uuids_drawn := uuids_drawn w + 1\<rparr>
              in if length recipes_dict \<ge> 3 then (Inr recipes_dict, w)
                 else collect_recipes U SPECIAL_TOKENS uuid4 raw_outputs recipes_dict w)))"

definition generate_recipes ::
  "unicode \<Rightarrow> str list \<Rightarrow> pipeline \<Rightarrow> (nat \<Rightarrow> str) \<Rightarrow> recipe_request \<Rightarrow> world \<Rightarrow>
     http_result \<times> world"
where
  "generate_recipes U SPECIAL_TOKENS generator uuid4 req w =
     (if ingredients req = [] then
        (HTTPException 400
           (ascii ''No ingredients provided. Please provide at least one ingredient.''), w)
      else
        (let cleaned =
               map (\<lambda>ing. lower U (strip ing))
                 (filter (\<lambda>ing. ing \<noteq> [] \<and> strip ing \<noteq> []) (ingredients req))
         in if cleaned = [] then
              (HTTPException 400 (ascii ''No valid ingredients found after cleaning.''), w)
            else
              (let items_str = join (ascii '', '') cleaned;
                   w = logger (Info (ascii ''Generating recipes for items: '' @ items_str)) w
               in case generate_recipe_text generator items_str 3 512 w of
                    (Inl e, w) \<Rightarrow>
                      (HTTPException 500
                         (ascii ''Recipe generation failed. Please try again later.''),
                       logger (Error (ascii ''Unexpected error in /generate-recipes: ''
                                        @ str_exception e)) w)
                  | (Inr raw_outputs, w) \<Rightarrow>
                      (case collect_recipes U SPECIAL_TOKENS uuid4 raw_outputs [] w of
                         (Inl e, w) \<Rightarrow>
                           (HTTPException 500
                              (ascii ''Recipe generation failed. Please try again later.''),
                            logger (Error (ascii ''Unexpected error in /generate-recipes: ''
                                             @ str_exception e)) w)
                       | (Inr recipes_dict, w) \<Rightarrow>
                           (let recipes_list = map snd recipes_dict;
                                w = logger (Info (ascii ''Generated ''
                                                    @ str_nat (length recipes_list)
                                                    @ ascii '' recipes'')) w
                            in (RecipeResponse recipes_list, w))))))"

section \<open>Notions used in the statements\<close>

text \<open>A line carries the prefix \<open>p\<close> when its lower-cased text starts with \<open>p\<close>.\<close>

definition has_prefix :: "unicode \<Rightarrow> str \<Rightarrow> str \<Rightarrow> bool" where
  "has_prefix U p line = startswith (lower U line) p"

text \<open>The last line of \<open>ls\<close> that carries the prefix \<open>p\<close>, if there is one.\<close>

definition last_match :: "unicode \<Rightarrow> str \<Rightarrow> str list \<Rightarrow> str option" where
  "last_match U p ls =
     (if filter (has_prefix U p) ls = [] then None
      else Some (last (filter (has_prefix U p) ls)))"

text \<open>The text of a line after its first colon (U+003A), trimmed.\<close>

definition after_colon :: "str \<Rightarrow> str" where
  "after_colon line = strip (tl (dropWhile (\<lambda>c. c \<noteq> 0x3A) line))"

text \<open>The non-empty trimmed lines of a cleaned text.\<close>

definition lines_of :: "str \<Rightarrow> str list" where
  "lines_of cleaned = map strip (filter (\<lambda>l. strip l \<noteq> []) (split cleaned [0x0A]))"

text \<open>The non-empty trimmed pieces of a text between its double hyphens.\<close>

definition pieces :: "str \<Rightarrow> str list" where
  "pieces x = map strip (filter (\<lambda>s. strip s \<noteq> []) (split x (ascii ''--'')))"

text \<open>
  The values of the three loop variables after the lines \<open>ls\<close>, from their values
  before: each field is taken from the last line that carries its prefix.
\<close>

definition scan_result :: "unicode \<Rightarrow> str list \<Rightarrow> str \<times> str \<times> str \<Rightarrow> str \<times> str \<times> str" where
  "scan_result U ls st =
     (case st of (t, i, d) \<Rightarrow>
       ((case last_match U (ascii ''title:'') ls of
           None \<Rightarrow> t | Some l \<Rightarrow> str_or (after_colon l) (ascii ''Untitled Recipe'')),
        (case last_match U (ascii ''ingredients:'') ls of None \<Rightarrow> i | Some l \<Rightarrow> after_colon l),
        (case last_match U (ascii ''directions:'') ls of None \<Rightarrow> d | Some l \<Rightarrow> after_colon l)))"

text \<open>The ingredient list as the handler joins it: trimmed, lower-cased, blanks dropped.\<close>

definition normalized :: "unicode \<Rightarrow> str list \<Rightarrow> str list" where
  "normalized U ings = map (\<lambda>ing. lower U (strip ing)) (filter (\<lambda>ing. strip ing \<noteq> []) ings)"

text \<open>The case-insensitive key of the title that a raw output parses to.\<close>

definition title_key :: "unicode \<Rightarrow> str list \<Rightarrow> str \<Rightarrow> str" where
  "title_key U toks raw =
     (case parse_recipe_output U toks raw of Inl e \<Rightarrow> [] | Inr (t, d, i) \<Rightarrow> lower U t)"

text \<open>The elements of a list in the order of their first occurrences, each once.\<close>

primrec first_seen :: "'a list \<Rightarrow> 'a list" where
  "first_seen [] = []"
| "first_seen (x # xs) = x # removeAll x (first_seen xs)"

text \<open>
  An entry of the dictionary comes from the first raw output with its key: the key is
  the lower-cased title of the recipe, and the recipe's fields are what that first raw
  output parses to.
\<close>

definition from_first :: "unicode \<Rightarrow> str list \<Rightarrow> str list \<Rightarrow> str \<times> recipe \<Rightarrow> bool" where
  "from_first U toks raws e =
     (case e of (k, r) \<Rightarrow>
        k = lower U (title r) \<and>
        (case find (\<lambda>x. title_key U toks x = k) raws of
           None \<Rightarrow> False
         | Some raw \<Rightarrow>
             parse_recipe_output U toks raw
               = Inr (title r, shortDescription r, instructions r)))"

text \<open>
  A token in angle brackets: \<^verbatim>\<open><\<close> (U+003C), a body without brackets, \<^verbatim>\<open>>\<close> (U+003E).
  A text is flat when a \<^verbatim>\<open>>\<close> stands between any two \<^verbatim>\<open><\<close> of it; \<open>opened\<close> tells that
  a \<^verbatim>\<open><\<close> was read and no \<^verbatim>\<open>>\<close> after it.
\<close>

definition bracket_free :: "str \<Rightarrow> bool" where
  "bracket_free s = (0x3C \<notin> set s \<and> 0x3E \<notin> set s)"

definition bracketed :: "str \<Rightarrow> bool" where
  "bracketed t =
     (case t of
        [] \<Rightarrow> False
      | c # cs \<Rightarrow> c = 0x3C \<and> cs \<noteq> [] \<and> last cs = 0x3E \<and> bracket_free (butlast cs))"

fun flat_from :: "bool \<Rightarrow> str \<Rightarrow> bool" where
  "flat_from opened [] = True"
| "flat_from opened (c # cs) =
     (if c = 0x3C then \<not> opened \<and> flat_from True cs
      else if c = 0x3E then flat_from False cs
      else flat_from opened cs)"

definition flat :: "str \<Rightarrow> bool" where
  "flat s = flat_from False s"

text \<open>
  Two tokens overlap when a non-empty end of the first is a beginning of the second, or
  the first occurs inside the second.
\<close>

definition overlap :: "str \<Rightarrow> str \<Rightarrow> bool" where
  "overlap a b =
     (list_ex (\<lambda>k. drop (length a - k) a = take k b) [1 ..< Suc (min (length a) (length b))]
      \<or> sublist a b)"

definition non_overlapping :: "str list \<Rightarrow> bool" where
  "non_overlapping toks = list_all (\<lambda>a. list_all (\<lambda>b. a = b \<or> \<not> overlap a b) toks) toks"

section \<open>What the statements use of the case mappings\<close>

text \<open>The case mappings of the letters A to Z and a to z.\<close>

definition ascii_lower :: "int \<Rightarrow> int" where
  "ascii_lower c = (if 0x41 \<le> c \<and> c \<le> 0x5A then c + 0x20 else c)"

definition ascii_upper :: "int \<Rightarrow> int" where
  "ascii_upper c = (if 0x61 \<le> c \<and> c \<le> 0x7A then c - 0x20 else c)"

definition ascii_capitalize :: "str \<Rightarrow> str" where
  "ascii_capitalize s = (case s of [] \<Rightarrow> [] | c # cs \<Rightarrow> ascii_upper c # map ascii_lower cs)"

text \<open>
  Two facts of Python's case mappings: lower-casing produces a colon only from a colon,
  and on a string of ASCII code points \<^verbatim>\<open>capitalize\<close> upper-cases the first letter and
  lower-cases the others.
\<close>

definition python_unicode :: "unicode \<Rightarrow> bool" where
  "python_unicode U =
     ((\<forall>s. 0x3A \<in> set (lower U s) \<longrightarrow> 0x3A \<in> set s) \<and>
      (\<forall>s. list_all (\<lambda>c. 0 \<le> c \<and> c < 0x80) s \<longrightarrow> capitalize U s = ascii_capitalize s))"

section \<open>Example inputs\<close>

text \<open>
  Case mappings for the examples: Python's on ASCII text, where only the letters A to
  Z and a to z change.
\<close>

definition ascii_tables :: unicode where
  "ascii_tables = \<lparr>lower = map ascii_lower, capitalize = ascii_capitalize\<rparr>"

text \<open>
  A token list for the examples: the end-of-sequence, unknown and padding tokens of a
  T5 tokenizer.
\<close>

definition example_tokens :: "str list" where
  "example_tokens = [ascii ''</s>'', ascii ''<unk>'', ascii ''<pad>'']"

text \<open>Raw outputs for the examples.\<close>

definition raw_three_lines :: str where
  "raw_three_lines =
     ascii ''title: X'' @ [0x0A] @ ascii ''ingredients: A -- B'' @ [0x0A]
       @ ascii ''directions: step1 -- step2''"

definition raw_second_title :: str where
  "raw_second_title = raw_three_lines @ [0x0A] @ ascii ''title: Y''"

text \<open>The second line starts with a no-break space (U+00A0), which trimming removes.\<close>

definition raw_two_directions :: str where
  "raw_two_directions =
     ascii ''directions: boil'' @ [0x0A, 0xA0] @ ascii ''Directions: chop -- fry''"

definition raw_directions_empty_last :: str where
  "raw_directions_empty_last = ascii ''directions: boil'' @ [0x0A] @ ascii ''directions:''"

definition raw_empty_title_last :: str where
  "raw_empty_title_last = ascii ''title: A'' @ [0x0A] @ ascii ''title:''"

definition raw_long_title :: str where
  "raw_long_title = ascii ''title: '' @ replicate 100 0x61"

definition raw_sentinel_title :: str where
  "raw_sentinel_title = ascii ''title: Untitled Recipe''"

text \<open>A pipeline, an identifier supply and a starting state for the examples.\<close>

definition example_generator :: pipeline where
  "example_generator prompt num_recipes max_length =
     Inr [Some (ascii ''title: Soup''),
          Some (ascii ''title: soup'' @ [0x0A] @ ascii ''ingredients: leek''), None]"

definition example_uuid4 :: "nat \<Rightarrow> str" where
  "example_uuid4 n = ascii ''uuid-'' @ str_nat n"

definition world0 :: world where
  "world0 = \<lparr>generator_calls = [], uuids_drawn = 0, logged = []\<rparr>"

definition raw_soups :: "str list" where
  "raw_soups =
     [ascii ''title: Soup'', ascii ''title: soup'' @ [0x0A] @ ascii ''ingredients: leek'']"

definition raw_four_dishes :: "str list" where
  "raw_four_dishes =
     [ascii ''title: Soup'', ascii ''title: soup'', ascii ''title: Stew'', ascii ''title: Pie'']"

definition raw_split_pad :: str where
  "raw_split_pad = ascii ''<p</s>ad>''"

definition raw_with_tokens :: str where
  "raw_with_tokens =
     ascii ''<pad>title: Soup<section>directions: boil<sep>serve</s><pad>''"

section \<open>The line scan\<close>

lemma has_prefix_colon:
  assumes "python_unicode U" and "has_prefix U p line" and "0x3A \<in> set p"
  shows "0x3A \<in> set line"
proof -
  from assms(2) have "prefix p (lower U line)" by (simp add: has_prefix_def startswith_def)
  then have "set p \<subseteq> set (lower U line)" by (rule set_mono_prefix)
  with assms(3) have "0x3A \<in> set (lower U line)" by blast
  with assms(1) show ?thesis by (simp add: python_unicode_def)
qed

lemma partition_sep_char:
  "partition_sep [c] s =
     (if c \<in> set s then Some (takeWhile (\<lambda>x. x \<noteq> c) s, tl (dropWhile (\<lambda>x. x \<noteq> c) s)) else None)"
  by (induction s) auto

lemma remainder_colon: "0x3A \<in> set line \<Longrightarrow> remainder line = Inr (after_colon line)"
  by (simp add: remainder_def split1_def ascii_def partition_sep_char index_def after_colon_def)

lemma remainder_has_prefix:
  "python_unicode U \<Longrightarrow> has_prefix U p line \<Longrightarrow> 0x3A \<in> set p \<Longrightarrow>
     remainder line = Inr (after_colon line)"
  by (rule remainder_colon) (rule has_prefix_colon)

lemma has_prefix_head:
  "has_prefix U (a # p) line \<Longrightarrow> has_prefix U (b # q) line \<Longrightarrow> a = b"
  by (auto simp: has_prefix_def startswith_def prefix_def)

lemma last_match_Nil: "last_match U p [] = None"
  by (simp add: last_match_def)

lemma last_match_Cons:
  "last_match U p (l # ls) =
     (case last_match U p ls of
        None \<Rightarrow> if has_prefix U p l then Some l else None
      | Some x \<Rightarrow> Some x)"
  by (simp add: last_match_def)

lemma scan_lines_eq:
  assumes U: "python_unicode U"
  shows "scan_lines U ls st = Inr (scan_result U ls st)"
proof (induction ls arbitrary: st)
  case Nil
  then show ?case by (cases st) (simp add: scan_result_def last_match_Nil)
next
  case (Cons l ls)
  obtain t i d where st: "st = (t, i, d)" by (cases st)
  have ti: "has_prefix U (ascii ''title:'') l \<Longrightarrow> \<not> has_prefix U (ascii ''ingredients:'') l"
    and td: "has_prefix U (ascii ''title:'') l \<Longrightarrow> \<not> has_prefix U (ascii ''directions:'') l"
    and idd: "has_prefix U (ascii ''ingredients:'') l \<Longrightarrow> \<not> has_prefix U (ascii ''directions:'') l"
    by (auto simp: ascii_def dest: has_prefix_head)
  have c: "0x3A \<in> set (ascii ''title:'')" "0x3A \<in> set (ascii ''ingredients:'')"
    "0x3A \<in> set (ascii ''directions:'')"
    by (simp_all add: ascii_def)
  have r: "has_prefix U (ascii ''title:'') l \<or> has_prefix U (ascii ''ingredients:'') l
      \<or> has_prefix U (ascii ''directions:'') l \<Longrightarrow> remainder l = Inr (after_colon l)"
    using c by (auto intro: remainder_has_prefix [OF U])
  show ?case
    unfolding st
    using ti td idd r
    by (auto simp: Cons.IH scan_result_def last_match_Cons has_prefix_def [symmetric] Let_def
        split: option.splits)
qed

section \<open>The parser as a function of the cleaned lines\<close>

lemma segments_pieces: "segments U x = map (capitalize U) (pieces x)"
  by (simp add: segments_def pieces_def)

lemma segments_Nil_iff: "segments U x = [] \<longleftrightarrow> pieces x = []"
  by (simp add: segments_pieces)

lemma pieces_Nil: "pieces [] = []"
  by (simp add: pieces_def split.simps [of "[]"] strip_def ascii_def)

lemma parse_eq:
  assumes U: "python_unicode U"
  shows "parse_recipe_output U toks raw =
     (let cleaned = clean_special_tokens toks raw; ls = lines_of cleaned
      in if ls = [] then Inr (ascii ''Untitled Recipe'', [], cleaned)
         else
           (case scan_result U ls (ascii ''Untitled Recipe'', [], []) of
              (t, i, d) \<Rightarrow>
                Inr (take 80 (if t = ascii ''Untitled Recipe'' then take 80 (hd ls) else t),
                     take 200 (if segments U i \<noteq> []
                               then ascii ''Ingredients: '' @ join (ascii '', '') (take 6 (segments U i))
                               else []),
                     if segments U d \<noteq> [] then numbered (segments U d) else cleaned)))"
proof -
  have seg: "segments U [] = []"
    by (simp add: segments_Nil_iff pieces_Nil)
  show ?thesis
    unfolding parse_recipe_output_def lines_of_def [symmetric] Let_def
    by (auto simp: scan_lines_eq [OF U] seg hd_conv_nth split: prod.splits)
qed

lemma parse_total:
  "python_unicode U \<Longrightarrow> \<exists>t d i. parse_recipe_output U toks raw = Inr (t, d, i)"
  by (simp add: parse_eq Let_def split: prod.splits)

lemma strip_nonempty_lines: "l \<in> set (lines_of cleaned) \<Longrightarrow> l \<noteq> []"
  by (auto simp: lines_of_def)

lemma last_match_in: "last_match U p ls = Some l \<Longrightarrow> l \<in> set ls \<and> has_prefix U p l"
proof -
  assume a: "last_match U p ls = Some l"
  then have ne: "filter (has_prefix U p) ls \<noteq> []"
    and l: "l = last (filter (has_prefix U p) ls)"
    by (auto simp: last_match_def split: if_splits)
  from ne have "last (filter (has_prefix U p) ls) \<in> set (filter (has_prefix U p) ls)"
    by (rule last_in_set)
  with l show ?thesis by simp
qed

lemma ascii_tables_ok: "python_unicode ascii_tables"
proof -
  have "ascii_lower c = 0x3A \<Longrightarrow> c = 0x3A" for c
    by (auto simp: ascii_lower_def split: if_splits)
  then have "0x3A \<in> set (map ascii_lower s) \<Longrightarrow> 0x3A \<in> set s" for s
    by (induction s) auto
  then show ?thesis by (simp add: python_unicode_def ascii_tables_def)
qed

section \<open>The collecting loop\<close>

lemma distinct_first_seen: "distinct (first_seen xs)"
  by (induction xs) (auto simp: distinct_removeAll)

lemma filter_removeAll_in: "k \<in> D \<Longrightarrow> filter (\<lambda>x. x \<notin> D) (removeAll k xs) = filter (\<lambda>x. x \<notin> D) xs"
  by (induction xs) auto

lemma filter_removeAll_insert:
  "filter (\<lambda>x. x \<notin> D) (removeAll k xs) = filter (\<lambda>x. x \<notin> insert k D) xs"
  by (induction xs) auto

lemma strip_Nil: "strip [] = []"
  by (simp add: strip_def)

lemma cleaned_eq:
  "map (\<lambda>ing. lower U (strip ing)) (filter (\<lambda>ing. ing \<noteq> [] \<and> strip ing \<noteq> []) ings)
     = normalized U ings"
proof -
  have "(\<lambda>ing. ing \<noteq> [] \<and> strip ing \<noteq> []) = (\<lambda>ing. strip ing \<noteq> [])"
    by (auto simp: strip_Nil)
  then show ?thesis by (simp add: normalized_def)
qed

lemma collect_recipes_Cons:
  assumes "parse_recipe_output U toks raw = Inr (t, sd, ins)"
  shows "collect_recipes U toks uuid4 (raw # raws) d w =
     (if lower U t \<in> fst ` set d then collect_recipes U toks uuid4 raws d w
      else if 2 \<le> length d
      then (Inr (d @ [(lower U t, \<lparr>recipe_id = uuid4 (uuids_drawn w), title = t,
                                  shortDescription = sd, instructions = ins\<rparr>)]),
            w\<lparr>uuids_drawn := uuids_drawn w + 1\<rparr>)
      else collect_recipes U toks uuid4 raws
             (d @ [(lower U t, \<lparr>recipe_id = uuid4 (uuids_drawn w), title = t,
                               shortDescription = sd, instructions = ins\<rparr>)])
             (w\<lparr>uuids_drawn := uuids_drawn w + 1\<rparr>))"
proof -
  have "(3 \<le> Suc (length d)) = (2 \<le> length d)" by arith
  with assms show ?thesis by (simp add: Let_def)
qed

lemma from_first_skip:
  "title_key U toks raw \<noteq> fst e \<Longrightarrow> from_first U toks raws e \<Longrightarrow> from_first U toks (raw # raws) e"
  by (cases e) (simp add: from_first_def)

lemma keys_fresh:
  assumes "map fst new = take n (filter (\<lambda>k. k \<notin> D) xs)" and "x \<in> set new"
  shows "fst x \<notin> D"
proof -
  from assms(2) have "fst x \<in> set (map fst new)" by simp
  then have "fst x \<in> set (filter (\<lambda>k. k \<notin> D) xs)"
    unfolding assms(1) by (rule in_set_takeD)
  then show ?thesis by simp
qed

lemma collect_recipes_inv:
  assumes U: "python_unicode U" and len: "length d < 3"
  shows "\<exists>new w'. collect_recipes U toks uuid4 raws d w = (Inr (d @ new), w')
     \<and> map fst new = take (3 - length d)
          (filter (\<lambda>k. k \<notin> fst ` set d) (first_seen (map (title_key U toks) raws)))
     \<and> list_all (from_first U toks raws) new"
  using len
proof (induction raws arbitrary: d w)
  case Nil
  then show ?case by simp
next
  case (Cons raw raws)
  obtain t sd ins where p: "parse_recipe_output U toks raw = Inr (t, sd, ins)"
    using parse_total [OF U] by blast
  then have k: "title_key U toks raw = lower U t" by (simp add: title_key_def)
  define e where "e = (lower U t, \<lparr>recipe_id = uuid4 (uuids_drawn w), title = t,
                                  shortDescription = sd, instructions = ins\<rparr>)"
  have fe: "from_first U toks (raw # raws) e"
    by (simp add: from_first_def e_def k p)
  show ?case
  proof (cases "lower U t \<in> fst ` set d")
    case True
    from Cons.IH [OF Cons.prems, of w] obtain new w' where
      c: "collect_recipes U toks uuid4 raws d w = (Inr (d @ new), w')"
      and m: "map fst new = take (3 - length d)
          (filter (\<lambda>k. k \<notin> fst ` set d) (first_seen (map (title_key U toks) raws)))"
      and f: "list_all (from_first U toks raws) new"
      by blast
    have "\<forall>x \<in> set new. title_key U toks raw \<noteq> fst x"
    proof
      fix x assume "x \<in> set new"
      with m have "fst x \<notin> fst ` set d" by (rule keys_fresh)
      with True show "title_key U toks raw \<noteq> fst x" unfolding k by metis
    qed
    with f have "list_all (from_first U toks (raw # raws)) new"
      by (auto simp: list_all_iff intro: from_first_skip)
    moreover have "collect_recipes U toks uuid4 (raw # raws) d w = (Inr (d @ new), w')"
      using True c by (simp add: collect_recipes_Cons [OF p] del: collect_recipes.simps)
    moreover have "map fst new = take (3 - length d)
          (filter (\<lambda>k. k \<notin> fst ` set d) (first_seen (map (title_key U toks) (raw # raws))))"
      using True m by (simp add: k filter_removeAll_in)
    ultimately show ?thesis by blast
  next
    case False
    show ?thesis
    proof (cases "2 \<le> length d")
      case True
      with Cons.prems have l: "3 - length d = Suc 0" by arith
      have "collect_recipes U toks uuid4 (raw # raws) d w =
              (Inr (d @ [e]), w\<lparr>uuids_drawn := uuids_drawn w + 1\<rparr>)"
        using False True by (simp add: collect_recipes_Cons [OF p] e_def del: collect_recipes.simps)
      moreover have "map fst [e] = take (3 - length d)
          (filter (\<lambda>k. k \<notin> fst ` set d) (first_seen (map (title_key U toks) (raw # raws))))"
        using False by (simp add: k l e_def)
      moreover have "list_all (from_first U toks (raw # raws)) [e]"
        using fe by simp
      ultimately show ?thesis by blast
    next
      case short: False
      then have l: "length (d @ [e]) < 3" by simp
      from Cons.IH [OF l, of "w\<lparr>uuids_drawn := uuids_drawn w + 1\<rparr>"] obtain new w' where
        c: "collect_recipes U toks uuid4 raws (d @ [e]) (w\<lparr>uuids_drawn := uuids_drawn w + 1\<rparr>)
              = (Inr ((d @ [e]) @ new), w')"
        and m: "map fst new = take (3 - length (d @ [e]))
            (filter (\<lambda>k. k \<notin> fst ` set (d @ [e])) (first_seen (map (title_key U toks) raws)))"
        and f: "list_all (from_first U toks raws) new"
        by blast
      have ins: "fst ` set (d @ [e]) = insert (lower U t) (fst ` set d)"
        by (simp add: e_def)
      have "\<forall>x \<in> set new. title_key U toks raw \<noteq> fst x"
      proof
        fix x assume "x \<in> set new"
        with m have "fst x \<notin> fst ` set (d @ [e])" by (rule keys_fresh)
        then show "title_key U toks raw \<noteq> fst x" unfolding k ins by auto
      qed
      with f have "list_all (from_first U toks (raw # raws)) new"
        by (auto simp: list_all_iff intro: from_first_skip)
      with fe have "list_all (from_first U toks (raw # raws)) (e # new)" by simp
      moreover have "collect_recipes U toks uuid4 (raw # raws) d w = (Inr (d @ e # new), w')"
        using False short c by (simp add: collect_recipes_Cons [OF p] e_def del: collect_recipes.simps)
      moreover have "3 - length d = Suc (3 - length (d @ [e]))"
        using short by simp
      then have "map fst (e # new) = take (3 - length d)
          (filter (\<lambda>k. k \<notin> fst ` set d) (first_seen (map (title_key U toks) (raw # raws))))"
        using False m by (simp add: k filter_removeAll_insert ins) (simp add: e_def)
      ultimately show ?thesis by blast
    qed
  qed
qed

lemma collect_recipes_full:
  assumes U: "python_unicode U" and "length d < 3" and "collect_recipes U toks uuid4 raws d w = (Inr d', w')"
    and "3 \<le> length d'"
  shows "collect_recipes U toks uuid4 (raws @ ignored) d w = (Inr d', w')"
  using assms(2-)
proof (induction raws arbitrary: d w)
  case Nil
  then show ?case by simp
next
  case (Cons raw raws)
  obtain t sd ins where p: "parse_recipe_output U toks raw = Inr (t, sd, ins)"
    using parse_total [OF U] by blast
  note step = collect_recipes_Cons [OF p]
  show ?case
  proof (cases "lower U t \<in> fst ` set d")
    case True
    with Cons.prems(2) have "collect_recipes U toks uuid4 raws d w = (Inr d', w')"
      by (simp only: step if_True)
    from Cons.IH [OF Cons.prems(1) this Cons.prems(3)] True show ?thesis
      by (simp only: step if_True append_Cons)
  next
    case False
    show ?thesis
    proof (cases "2 \<le> length d")
      case True
      with False Cons.prems(2) show ?thesis
        by (simp only: step if_True if_False append_Cons)
    next
      case short: False
      let ?d = "d @ [(lower U t, \<lparr>recipe_id = uuid4 (uuids_drawn w), title = t,
                                  shortDescription = sd, instructions = ins\<rparr>)]"
      from short have l: "length ?d < 3" by simp
      from False short Cons.prems(2)
      have "collect_recipes U toks uuid4 raws ?d (w\<lparr>uuids_drawn := uuids_drawn w + 1\<rparr>)
              = (Inr d', w')"
        by (simp only: step if_False)
      from Cons.IH [OF l this Cons.prems(3)] False short show ?thesis
        by (simp only: step if_False append_Cons)
    qed
  qed
qed

lemma collect_recipes_frame:
  "generator_calls (snd (collect_recipes U toks uuid4 raws d w)) = generator_calls w
   \<and> logged (snd (collect_recipes U toks uuid4 raws d w)) = logged w"
proof (induction raws arbitrary: d w)
  case Nil
  then show ?case by simp
next
  case (Cons raw raws)
  show ?case
  proof (cases "parse_recipe_output U toks raw")
    case (Inl e)
    then show ?thesis by simp
  next
    case (Inr x)
    then obtain t sd ins where p: "parse_recipe_output U toks raw = Inr (t, sd, ins)"
      by (cases x) simp
    show ?thesis
      by (simp add: collect_recipes_Cons [OF p] Cons.IH del: collect_recipes.simps)
  qed
qed

lemma generate_recipes_calls:
  assumes n: "normalized U (ingredients req) \<noteq> []"
  shows "generator_calls (snd (generate_recipes U toks gen uuid4 req w)) =
           generator_calls w @ [ascii ''items: '' @ join (ascii '', '') (normalized U (ingredients req))]"
proof -
  from n have ne: "ingredients req \<noteq> []" by (auto simp: normalized_def)
  show ?thesis
  proof (cases "gen (ascii ''items: '' @ join (ascii '', '') (normalized U (ingredients req))) 3 512")
    case (Inl e)
    with n ne show ?thesis
      by (simp add: generate_recipes_def cleaned_eq generate_recipe_text_def logger_def Let_def)
  next
    case (Inr outputs)
    let ?raws = "map (\<lambda>opt. strip (case opt of None \<Rightarrow> [] | Some t \<Rightarrow> t)) outputs"
    let ?w = "w\<lparr>logged := logged w @ [Info (ascii ''Generating recipes for items: '' @ join (ascii '', '') (normalized U (ingredients req)))],
                 generator_calls := generator_calls w @ [ascii ''items: '' @ join (ascii '', '') (normalized U (ingredients req))]\<rparr>"
    obtain res w' where c: "collect_recipes U toks uuid4 ?raws [] ?w = (res, w')"
      by (cases "collect_recipes U toks uuid4 ?raws [] ?w")
    from collect_recipes_frame [of U toks uuid4 ?raws "[]" ?w] c
    have "generator_calls w' = generator_calls w @ [ascii ''items: '' @ join (ascii '', '') (normalized U (ingredients req))]"
      by simp
    with n ne Inr c show ?thesis
      by (cases res)
        (simp_all add: generate_recipes_def cleaned_eq generate_recipe_text_def logger_def Let_def)
  qed
qed


section \<open>Removing bracketed tokens from a flat text\<close>

lemma bracketedE:
  assumes "bracketed t"
  obtains body where "t = 0x3C # body @ [0x3E]" and "bracket_free body"
proof -
  from assms obtain cs where t: "t = 0x3C # cs" and ne: "cs \<noteq> []"
    and l: "last cs = 0x3E" and b: "bracket_free (butlast cs)"
    by (auto simp: bracketed_def split: list.splits)
  from ne l have "cs = butlast cs @ [0x3E]" by (metis append_butlast_last_id)
  with t b that show thesis by metis
qed

lemma replace_from_skip:
  assumes "bracketed t" and "0x3C \<notin> set xs"
  shows "replace_from t new (xs @ ys) = xs @ replace_from t new ys"
  using assms(2)
proof (induction xs)
  case Nil
  then show ?case by simp
next
  case (Cons c xs)
  from assms(1) obtain body where "t = 0x3C # body @ [0x3E]" by (rule bracketedE)
  with Cons.prems have "\<not> prefix t (c # xs @ ys)" by auto
  with Cons show ?case by simp
qed

lemma tag_takeWhile:
  "bracket_free body \<Longrightarrow> takeWhile (\<lambda>c. c \<noteq> 0x3E) (body @ 0x3E # r) = body"
  by (induction body) (auto simp: bracket_free_def)

lemma prefix_tag_iff:
  assumes "bracketed t" and "bracket_free body"
  shows "prefix t (0x3C # body @ 0x3E # r) \<longleftrightarrow> t = 0x3C # body @ [0x3E]"
proof
  assume p: "prefix t (0x3C # body @ 0x3E # r)"
  from assms(1) obtain b where t: "t = 0x3C # b @ [0x3E]" and b: "bracket_free b"
    by (rule bracketedE)
  from p obtain z where "0x3C # body @ 0x3E # r = t @ z" by (auto simp: prefix_def)
  with t have "body @ 0x3E # r = b @ 0x3E # z" by simp
  then have "takeWhile (\<lambda>c. c \<noteq> 0x3E) (body @ 0x3E # r)
           = takeWhile (\<lambda>c. c \<noteq> 0x3E) (b @ 0x3E # z)" by simp
  with assms(2) b have "body = b" by (simp add: tag_takeWhile)
  with t show "t = 0x3C # body @ [0x3E]" by simp
next
  assume "t = 0x3C # body @ [0x3E]"
  then show "prefix t (0x3C # body @ 0x3E # r)" by simp
qed

lemma not_prefix_open:
  assumes "bracketed t" and "bracket_free body"
  shows "\<not> prefix t (0x3C # body)"
proof
  assume "prefix t (0x3C # body)"
  then have "set t \<subseteq> set (0x3C # body)" by (rule set_mono_prefix)
  moreover from assms(1) have "0x3E \<in> set t" by (auto elim: bracketedE)
  ultimately show False using assms(2) by (auto simp: bracket_free_def)
qed

lemma replace_from_tag:
  assumes "bracketed t" and "bracket_free body"
  shows "replace_from t new (0x3C # body @ 0x3E # r) =
           (if t = 0x3C # body @ [0x3E] then new else 0x3C # body @ [0x3E])
             @ replace_from t new r"
proof (cases "t = 0x3C # body @ [0x3E]")
  case True
  then show ?thesis by simp
next
  case False
  with assms have np: "\<not> prefix t (0x3C # body @ 0x3E # r)"
    by (simp add: prefix_tag_iff)
  from assms(2) have b: "0x3C \<notin> set body" by (simp add: bracket_free_def)
  have "replace_from t new (body @ 0x3E # r) = body @ replace_from t new (0x3E # r)"
    using assms(1) b by (rule replace_from_skip)
  moreover have "replace_from t new (0x3E # r) = 0x3E # replace_from t new r"
    using replace_from_skip [OF assms(1), of "[0x3E]" new r] by simp
  ultimately show ?thesis using np False by simp
qed

lemma replace_from_open:
  assumes "bracketed t" and "bracket_free body"
  shows "replace_from t new (0x3C # body) = 0x3C # body"
proof -
  from assms have "\<not> prefix t (0x3C # body)" by (rule not_prefix_open)
  moreover from assms(2) have "0x3C \<notin> set body" by (simp add: bracket_free_def)
  with assms(1) have "replace_from t new (body @ []) = body @ replace_from t new []"
    by (rule replace_from_skip)
  ultimately show ?thesis by simp
qed

lemma flat_from_open:
  "flat_from True cs \<Longrightarrow>
     bracket_free cs \<or>
     (\<exists>body r. cs = body @ 0x3E # r \<and> bracket_free body \<and> flat_from False r)"
proof (induction cs)
  case Nil
  then show ?case by (simp add: bracket_free_def)
next
  case (Cons c cs)
  show ?case
  proof (cases "c = 0x3E")
    case True
    with Cons.prems have "flat_from False cs" by simp
    with True have "c # cs = [] @ 0x3E # cs \<and> bracket_free [] \<and> flat_from False cs"
      by (simp add: bracket_free_def)
    then show ?thesis by blast
  next
    case False
    with Cons.prems have c: "c \<noteq> 0x3C" and f: "flat_from True cs"
      by (auto split: if_splits)
    from Cons.IH [OF f] show ?thesis
    proof
      assume "bracket_free cs"
      with c False show ?thesis by (simp add: bracket_free_def)
    next
      assume "\<exists>body r. cs = body @ 0x3E # r \<and> bracket_free body \<and> flat_from False r"
      then obtain body r where "cs = body @ 0x3E # r" "bracket_free body" "flat_from False r"
        by blast
      with c False have "c # cs = (c # body) @ 0x3E # r \<and> bracket_free (c # body)
          \<and> flat_from False r"
        by (simp add: bracket_free_def)
      then show ?thesis by blast
    qed
  qed
qed

lemma flat_cases:
  assumes "flat_from False s"
  shows "s = []
     \<or> (\<exists>c cs. s = c # cs \<and> c \<noteq> 0x3C \<and> flat_from False cs)
     \<or> (\<exists>body. s = 0x3C # body \<and> bracket_free body)
     \<or> (\<exists>body r. s = 0x3C # body @ 0x3E # r \<and> bracket_free body \<and> flat_from False r)"
proof (cases s)
  case Nil
  then show ?thesis by simp
next
  case (Cons c cs)
  show ?thesis
  proof (cases "c = 0x3C")
    case True
    with assms Cons have "flat_from True cs" by simp
    from flat_from_open [OF this] show ?thesis
    proof
      assume "bracket_free cs"
      with Cons True show ?thesis by blast
    next
      assume "\<exists>body r. cs = body @ 0x3E # r \<and> bracket_free body \<and> flat_from False r"
      with Cons True show ?thesis by blast
    qed
  next
    case False
    with assms Cons have "flat_from False cs" by (auto split: if_splits)
    with Cons False show ?thesis by simp
  qed
qed

lemma replace_from_other:
  assumes "bracketed t" and "c \<noteq> 0x3C"
  shows "replace_from t new (c # cs) = c # replace_from t new cs"
  using replace_from_skip [OF assms(1), of "[c]" new cs] assms(2) by simp

lemma replace_from_commute:
  assumes a: "bracketed a" and b: "bracketed b"
  shows "flat_from False s \<Longrightarrow>
    replace_from a [] (replace_from b [] s) = replace_from b [] (replace_from a [] s)"
proof (induction s rule: length_induct)
  case (1 s)
  from flat_cases [OF "1.prems"] show ?case
  proof (elim disjE exE conjE)
    assume "s = []"
    then show ?thesis by simp
  next
    fix c cs
    assume other: "s = c # cs" "c \<noteq> 0x3C" "flat_from False cs"
    from other(1) have "length cs < length s" by simp
    with "1.IH" other(3) have
      "replace_from a [] (replace_from b [] cs) = replace_from b [] (replace_from a [] cs)"
      by blast
    with other(1,2) show ?thesis
      by (simp add: replace_from_other [OF a] replace_from_other [OF b] del: replace_from.simps)
  next
    fix body
    assume opened: "s = 0x3C # body" "bracket_free body"
    from opened show ?thesis
      by (simp only: replace_from_open [OF a] replace_from_open [OF b])
  next
    fix body r
    assume tag: "s = 0x3C # body @ 0x3E # r" "bracket_free body" "flat_from False r"
    from tag(1) have "length r < length s" by simp
    with "1.IH" tag(3) have ih:
      "replace_from a [] (replace_from b [] r) = replace_from b [] (replace_from a [] r)"
      by blast
    let ?tg = "0x3C # body @ [0x3E]"
    have eq: "replace_from t [] (0x3C # body @ 0x3E # x) = replace_from t [] x"
      if "bracketed t" and "t = ?tg" for t x
      using replace_from_tag [OF that(1) tag(2), of "[]" x] that(2) by simp
    have ne: "replace_from t [] (0x3C # body @ 0x3E # x)
          = 0x3C # body @ 0x3E # replace_from t [] x"
      if "bracketed t" and "t \<noteq> ?tg" for t x
      using replace_from_tag [OF that(1) tag(2), of "[]" x] that(2) by simp
    show ?thesis
    proof (cases "a = ?tg")
      case aeq: True
      show ?thesis
      proof (cases "b = ?tg")
        case True
        with aeq have "a = b" by simp
        then show ?thesis by simp
      next
        case bne: False
        have "replace_from a [] (replace_from b [] s)
            = replace_from a [] (0x3C # body @ 0x3E # replace_from b [] r)"
          unfolding tag(1) by (simp only: ne [OF b bne])
        also have "\<dots> = replace_from a [] (replace_from b [] r)"
          by (rule eq [OF a aeq])
        also have "\<dots> = replace_from b [] (replace_from a [] r)"
          by (rule ih)
        also have "\<dots> = replace_from b [] (replace_from a [] s)"
          unfolding tag(1) by (simp only: eq [OF a aeq])
        finally show ?thesis .
      qed
    next
      case ane: False
      show ?thesis
      proof (cases "b = ?tg")
        case beq: True
        have "replace_from a [] (replace_from b [] s) = replace_from a [] (replace_from b [] r)"
          unfolding tag(1) by (simp only: eq [OF b beq])
        also have "\<dots> = replace_from b [] (replace_from a [] r)"
          by (rule ih)
        also have "\<dots> = replace_from b [] (0x3C # body @ 0x3E # replace_from a [] r)"
          by (rule eq [OF b beq, symmetric])
        also have "\<dots> = replace_from b [] (replace_from a [] s)"
          unfolding tag(1) by (simp only: ne [OF a ane])
        finally show ?thesis .
      next
        case bne: False
        have "replace_from a [] (replace_from b [] s)
            = replace_from a [] (0x3C # body @ 0x3E # replace_from b [] r)"
          unfolding tag(1) by (simp only: ne [OF b bne])
        also have "\<dots> = 0x3C # body @ 0x3E # replace_from a [] (replace_from b [] r)"
          by (rule ne [OF a ane])
        also have "\<dots> = 0x3C # body @ 0x3E # replace_from b [] (replace_from a [] r)"
          by (simp only: ih)
        also have "\<dots> = replace_from b [] (0x3C # body @ 0x3E # replace_from a [] r)"
          by (rule ne [OF b bne, symmetric])
        also have "\<dots> = replace_from b [] (replace_from a [] s)"
          unfolding tag(1) by (simp only: ne [OF a ane])
        finally show ?thesis .
      qed
    qed
  qed
qed

lemma flat_from_no_open: "0x3C \<notin> set xs \<Longrightarrow> flat_from False (xs @ r) = flat_from False r"
  by (induction xs) auto

lemma flat_from_body: "bracket_free body \<Longrightarrow> flat_from True (body @ 0x3E # r) = flat_from False r"
  by (induction body) (auto simp: bracket_free_def)

lemma flat_replace_from:
  assumes t: "bracketed t" and new: "0x3C \<notin> set new"
  shows "flat_from False s \<Longrightarrow> flat_from False (replace_from t new s)"
proof (induction s rule: length_induct)
  case (1 s)
  from flat_cases [OF "1.prems"] show ?case
  proof (elim disjE exE conjE)
    assume "s = []"
    then show ?thesis by simp
  next
    fix c cs
    assume other: "s = c # cs" "c \<noteq> 0x3C" "flat_from False cs"
    from other(1) have "length cs < length s" by simp
    with "1.IH" other(3) have "flat_from False (replace_from t new cs)" by blast
    moreover have "replace_from t new s = [c] @ replace_from t new cs"
      using other(1,2) by (simp add: replace_from_other [OF t] del: replace_from.simps)
    ultimately show ?thesis using other(2) by (simp only: flat_from_no_open) simp
  next
    fix body
    assume opened: "s = 0x3C # body" "bracket_free body"
    from opened "1.prems" show ?thesis by (simp only: replace_from_open [OF t])
  next
    fix body r
    assume tag: "s = 0x3C # body @ 0x3E # r" "bracket_free body" "flat_from False r"
    from tag(1) have "length r < length s" by simp
    with "1.IH" tag(3) have ih: "flat_from False (replace_from t new r)" by blast
    have "replace_from t new s =
           (if t = 0x3C # body @ [0x3E] then new else 0x3C # body @ [0x3E])
             @ replace_from t new r"
      unfolding tag(1) using t tag(2) by (rule replace_from_tag)
    with ih new tag(2) show ?thesis
      by (auto simp: flat_from_no_open flat_from_body)
  qed
qed

lemma replace_bracketed: "bracketed t \<Longrightarrow> replace s t new = replace_from t new s"
  by (auto simp: replace_def elim: bracketedE)

lemma bracketed_markers: "bracketed (ascii ''<section>'')" "bracketed (ascii ''<sep>'')"
  by (simp_all add: bracketed_def bracket_free_def ascii_def)

lemma flat_markers:
  assumes "flat raw"
  shows "flat_from False (replace (replace raw (ascii ''<section>'') [0x0A]) (ascii ''<sep>'') (ascii ''--''))"
proof -
  from assms have r: "flat_from False raw" by (simp add: flat_def)
  have n: "0x3C \<notin> set [0x0A :: int]" "0x3C \<notin> set (ascii ''--'')"
    by (simp_all add: ascii_def)
  note s = flat_replace_from [OF bracketed_markers(1) n(1) r]
  note flat_replace_from [OF bracketed_markers(2) n(2) s]
  then show ?thesis by (simp only: replace_bracketed bracketed_markers)
qed

lemma strip_tokens_permuted:
  assumes br: "\<forall>t \<in> set toks. bracketed t" and perm: "mset toks = mset toks'"
    and fl: "flat_from False s"
  shows "foldl (\<lambda>text tok. replace text tok []) s toks
       = foldl (\<lambda>text tok. replace text tok []) s toks'"
proof -
  have "fold (\<lambda>tok text. replace text tok []) toks s
      = fold (\<lambda>tok text. replace text tok []) toks' s"
  proof (rule fold_permuted_eq [where P = "flat_from False"])
    show "mset toks = mset toks'" by (rule perm)
    show "flat_from False s" by (rule fl)
  next
    fix x z assume "x \<in> set toks" and z: "flat_from False z"
    with br have x: "bracketed x" by blast
    from x z have "flat_from False (replace_from x [] z)"
      by (intro flat_replace_from) simp_all
    with x show "flat_from False (replace z x [])" by (simp only: replace_bracketed)
  next
    fix x y z assume "x \<in> set toks" "y \<in> set toks" and z: "flat_from False z"
    with br have x: "bracketed x" and y: "bracketed y" by blast+
    from x y z have "replace_from x [] (replace_from y [] z) = replace_from y [] (replace_from x [] z)"
      by (rule replace_from_commute)
    with x y show "replace (replace z y []) x [] = replace (replace z x []) y []"
      by (simp only: replace_bracketed)
  qed
  then show ?thesis by (simp only: foldl_conv_fold)
qed


section \<open>Properties of the parser\<close>

text \<open>
  C3. For every token list and every raw text, whatever its length and content, the
  parser returns a triple, the title of which has at most 80 code points and the
  description at most 200. The example is a title line with a remainder of 100
  letters, cut to 80.
\<close>

theorem parse_recipe_output_bounds:
  "python_unicode U \<Longrightarrow>
     \<exists>t d i. parse_recipe_output U toks raw = Inr (t, d, i) \<and> length t \<le> 80 \<and> length d \<le> 200"
  by (simp add: parse_eq Let_def ascii_def split: prod.splits)

theorem parse_recipe_output_bounds_witness:
  "python_unicode ascii_tables
   \<and> (\<exists>t d i. parse_recipe_output ascii_tables example_tokens raw_long_title = Inr (t, d, i)
        \<and> length t \<le> 80 \<and> length d \<le> 200)
   \<and> parse_recipe_output ascii_tables example_tokens raw_long_title
       = Inr (replicate 80 0x61, [], raw_long_title)"
proof -
  have "parse_recipe_output ascii_tables example_tokens raw_long_title
       = Inr (replicate 80 0x61, [], raw_long_title)"
    by code_simp
  with parse_recipe_output_bounds [OF ascii_tables_ok, of example_tokens raw_long_title]
    ascii_tables_ok
  show ?thesis by blast
qed

text \<open>
  C10. The fall-back to the first line is triggered by the value of \<open>title\<close> after
  the scan, not by the absence of a title line: when the last line carrying
  \<^verbatim>\<open>title:\<close> has an empty remainder, or the remainder \<^verbatim>\<open>Untitled Recipe\<close>, the
  returned title is the first non-empty line, cut to 80 code points. So the only line
  \<^verbatim>\<open>title: Untitled Recipe\<close> gives the title \<^verbatim>\<open>title: Untitled Recipe\<close>, prefix
  included.
\<close>

theorem title_sentinel_fallback:
  assumes "python_unicode U"
    and "last_match U (ascii ''title:'') (lines_of (clean_special_tokens toks raw)) = Some l"
    and "after_colon l = [] \<or> after_colon l = ascii ''Untitled Recipe''"
  shows "\<exists>d i. parse_recipe_output U toks raw =
           Inr (take 80 (hd (lines_of (clean_special_tokens toks raw))), d, i)"
proof -
  from assms(2) have "lines_of (clean_special_tokens toks raw) \<noteq> []"
    by (auto dest: last_match_in)
  moreover from assms(3)
  have "str_or (after_colon l) (ascii ''Untitled Recipe'') = ascii ''Untitled Recipe''"
    by (auto simp: str_or_def)
  ultimately show ?thesis
    unfolding parse_eq [OF assms(1)] Let_def scan_result_def using assms(2) by simp
qed

theorem title_sentinel_fallback_witness:
  "python_unicode ascii_tables
   \<and> last_match ascii_tables (ascii ''title:'')
       (lines_of (clean_special_tokens example_tokens raw_sentinel_title))
     = Some (ascii ''title: Untitled Recipe'')
   \<and> after_colon (ascii ''title: Untitled Recipe'') = ascii ''Untitled Recipe''
   \<and> (\<exists>d i. parse_recipe_output ascii_tables example_tokens raw_sentinel_title =
          Inr (ascii ''title: Untitled Recipe'', d, i))"
proof -
  have h1: "last_match ascii_tables (ascii ''title:'')
       (lines_of (clean_special_tokens example_tokens raw_sentinel_title))
     = Some (ascii ''title: Untitled Recipe'')"
    by code_simp
  have h2: "after_colon (ascii ''title: Untitled Recipe'') = ascii ''Untitled Recipe''"
    by code_simp
  have h3: "take 80 (hd (lines_of (clean_special_tokens example_tokens raw_sentinel_title)))
     = ascii ''title: Untitled Recipe''"
    by code_simp
  from title_sentinel_fallback [OF ascii_tables_ok h1] h2 h3 h1 ascii_tables_ok
  show ?thesis by simp
qed

text \<open>
  C9, as amended. The returned title is never empty. It is \<^verbatim>\<open>Untitled Recipe\<close> when
  no non-empty line remains; otherwise, when the last line carrying \<^verbatim>\<open>title:\<close> has a
  remainder that is neither empty nor \<^verbatim>\<open>Untitled Recipe\<close>, it is that remainder cut
  to 80 code points; otherwise it is the first non-empty line cut to 80 code points.

  The claim as stated gives the remainder of a title line whenever one with a
  non-empty remainder exists. The counterexample has the lines \<^verbatim>\<open>title: A\<close> and
  \<^verbatim>\<open>title:\<close>: the first has the remainder \<^verbatim>\<open>A\<close>, the second resets \<open>title\<close>, and
  the returned title is the first line, \<^verbatim>\<open>title: A\<close>.
\<close>

theorem title_nonempty:
  "python_unicode U \<Longrightarrow>
   \<exists>t d i. parse_recipe_output U toks raw = Inr (t, d, i) \<and> t \<noteq> [] \<and>
     t = (case lines_of (clean_special_tokens toks raw) of
            [] \<Rightarrow> ascii ''Untitled Recipe''
          | first # others \<Rightarrow>
              (case last_match U (ascii ''title:'') (first # others) of
                 None \<Rightarrow> take 80 first
               | Some l \<Rightarrow>
                   if after_colon l = [] \<or> after_colon l = ascii ''Untitled Recipe''
                   then take 80 first else take 80 (after_colon l)))"
proof (cases "lines_of (clean_special_tokens toks raw)")
  case Nil
  assume "python_unicode U"
  with Nil show ?thesis by (simp add: parse_eq Let_def ascii_def)
next
  case (Cons first others)
  assume U: "python_unicode U"
  from Cons have "first \<in> set (lines_of (clean_special_tokens toks raw))" by simp
  then have "first \<noteq> []" by (rule strip_nonempty_lines)
  with Cons show ?thesis
    unfolding parse_eq [OF U] Let_def scan_result_def
    by (auto simp: str_or_def split: option.splits)
qed

theorem title_nonempty_witness:
  "python_unicode ascii_tables
   \<and> (\<exists>d i. parse_recipe_output ascii_tables example_tokens raw_empty_title_last
         = Inr (ascii ''title: A'', d, i))"
proof -
  have h: "lines_of (clean_special_tokens example_tokens raw_empty_title_last)
      = [ascii ''title: A'', ascii ''title:'']"
    by code_simp
  have m: "last_match ascii_tables (ascii ''title:'') [ascii ''title: A'', ascii ''title:'']
      = Some (ascii ''title:'')"
    by code_simp
  have a: "after_colon (ascii ''title:'') = []" by code_simp
  have c: "take 80 (ascii ''title: A'') = ascii ''title: A''" by code_simp
  from title_nonempty [OF ascii_tables_ok, of example_tokens raw_empty_title_last]
  have "\<exists>d i. parse_recipe_output ascii_tables example_tokens raw_empty_title_last
         = Inr (ascii ''title: A'', d, i)"
    unfolding h by (simp add: m a c)
  with ascii_tables_ok show ?thesis by simp
qed

theorem title_remainder_counterexample:
  "ascii ''title: A'' \<in> set (lines_of (clean_special_tokens example_tokens raw_empty_title_last))
   \<and> has_prefix ascii_tables (ascii ''title:'') (ascii ''title: A'')
   \<and> after_colon (ascii ''title: A'') = ascii ''A''
   \<and> parse_recipe_output ascii_tables example_tokens raw_empty_title_last
       = Inr (ascii ''title: A'', [], raw_empty_title_last)"
  by code_simp

text \<open>
  C2, as amended. The scan does not stop at a match: after it, each of the three fields
  holds the remainder of the last line that carries its prefix (for the title, the
  default \<^verbatim>\<open>Untitled Recipe\<close> when that remainder is empty), and its initial value when
  no line carries it. A line carrying a prefix with no such line after it is that last
  line. The instructions are built from the last \<^verbatim>\<open>directions:\<close> line when it has a
  non-empty step, and are the whole cleaned text when it has none.

  The claim as stated has the instructions built from the last occurrence for every
  raw string with two \<^verbatim>\<open>directions:\<close> lines. In the counterexample the second one is
  \<^verbatim>\<open>directions:\<close> alone, and the instructions are the whole cleaned text, first line
  included.
\<close>

theorem last_match_wins:
  "python_unicode U \<Longrightarrow>
   scan_lines U ls (t0, i0, d0) =
     Inr ((case last_match U (ascii ''title:'') ls of
             None \<Rightarrow> t0 | Some l \<Rightarrow> str_or (after_colon l) (ascii ''Untitled Recipe'')),
          (case last_match U (ascii ''ingredients:'') ls of None \<Rightarrow> i0 | Some l \<Rightarrow> after_colon l),
          (case last_match U (ascii ''directions:'') ls of None \<Rightarrow> d0 | Some l \<Rightarrow> after_colon l))
   \<and> (\<forall>pre l post. ls = pre @ l # post \<and> has_prefix U p l \<and> \<not> list_ex (has_prefix U p) post
         \<longrightarrow> last_match U p ls = Some l)
   \<and> (\<forall>l. last_match U (ascii ''directions:'') (lines_of (clean_special_tokens toks raw)) = Some l
         \<longrightarrow> (\<exists>t d. parse_recipe_output U toks raw =
                Inr (t, d, if segments U (after_colon l) \<noteq> []
                           then numbered (segments U (after_colon l))
                           else clean_special_tokens toks raw)))"
proof (intro conjI allI impI)
  assume U: "python_unicode U"
  show "scan_lines U ls (t0, i0, d0) =
     Inr ((case last_match U (ascii ''title:'') ls of
             None \<Rightarrow> t0 | Some l \<Rightarrow> str_or (after_colon l) (ascii ''Untitled Recipe'')),
          (case last_match U (ascii ''ingredients:'') ls of None \<Rightarrow> i0 | Some l \<Rightarrow> after_colon l),
          (case last_match U (ascii ''directions:'') ls of None \<Rightarrow> d0 | Some l \<Rightarrow> after_colon l))"
    by (simp add: scan_lines_eq [OF U] scan_result_def)
next
  fix pre l post
  assume a: "ls = pre @ l # post \<and> has_prefix U p l \<and> \<not> list_ex (has_prefix U p) post"
  then have "filter (has_prefix U p) post = []"
    by (auto simp: list_ex_iff filter_empty_conv)
  with a show "last_match U p ls = Some l"
    by (simp add: last_match_def)
next
  fix l
  assume U: "python_unicode U"
  assume a: "last_match U (ascii ''directions:'') (lines_of (clean_special_tokens toks raw)) = Some l"
  then have "lines_of (clean_special_tokens toks raw) \<noteq> []"
    by (auto dest: last_match_in)
  with a show "\<exists>t d. parse_recipe_output U toks raw =
                Inr (t, d, if segments U (after_colon l) \<noteq> []
                           then numbered (segments U (after_colon l))
                           else clean_special_tokens toks raw)"
    unfolding parse_eq [OF U] Let_def scan_result_def by simp
qed

theorem last_match_wins_witness:
  "python_unicode ascii_tables
   \<and> lines_of (clean_special_tokens example_tokens raw_two_directions)
     = [ascii ''directions: boil'', ascii ''Directions: chop -- fry'']
   \<and> last_match ascii_tables (ascii ''directions:'')
       [ascii ''directions: boil'', ascii ''Directions: chop -- fry'']
     = Some (ascii ''Directions: chop -- fry'')
   \<and> (\<exists>t d. parse_recipe_output ascii_tables example_tokens raw_two_directions
         = Inr (t, d, ascii ''1. Chop'' @ [0x0A] @ ascii ''2. Fry''))"
proof -
  have h: "lines_of (clean_special_tokens example_tokens raw_two_directions)
     = [ascii ''directions: boil'', ascii ''Directions: chop -- fry'']"
    by code_simp
  have p: "has_prefix ascii_tables (ascii ''directions:'') (ascii ''Directions: chop -- fry'')"
    and q: "\<not> list_ex (has_prefix ascii_tables (ascii ''directions:'')) []"
    by code_simp+
  have s: "segments ascii_tables (after_colon (ascii ''Directions: chop -- fry''))
      = [ascii ''Chop'', ascii ''Fry'']"
    by code_simp
  have n: "numbered [ascii ''Chop'', ascii ''Fry''] = ascii ''1. Chop'' @ [0x0A] @ ascii ''2. Fry''"
    by code_simp
  note w = last_match_wins [OF ascii_tables_ok,
      of "[ascii ''directions: boil'', ascii ''Directions: chop -- fry'']" _ _ _
      "ascii ''directions:''" example_tokens raw_two_directions]
  from w have m: "last_match ascii_tables (ascii ''directions:'')
       [ascii ''directions: boil'', ascii ''Directions: chop -- fry'']
     = Some (ascii ''Directions: chop -- fry'')"
    using p q by (metis append_Cons append_Nil)
  from w h m have "\<exists>t d. parse_recipe_output ascii_tables example_tokens raw_two_directions =
      Inr (t, d, if segments ascii_tables (after_colon (ascii ''Directions: chop -- fry'')) \<noteq> []
                 then numbered (segments ascii_tables (after_colon (ascii ''Directions: chop -- fry'')))
                 else clean_special_tokens example_tokens raw_two_directions)"
    by simp
  then have "\<exists>t d. parse_recipe_output ascii_tables example_tokens raw_two_directions
         = Inr (t, d, ascii ''1. Chop'' @ [0x0A] @ ascii ''2. Fry'')"
    by (simp add: s n)
  with h m ascii_tables_ok show ?thesis by simp
qed

theorem last_directions_counterexample:
  "lines_of (clean_special_tokens example_tokens raw_directions_empty_last)
     = [ascii ''directions: boil'', ascii ''directions:'']
   \<and> last_match ascii_tables (ascii ''directions:'')
       (lines_of (clean_special_tokens example_tokens raw_directions_empty_last))
     = Some (ascii ''directions:'')
   \<and> parse_recipe_output ascii_tables example_tokens raw_directions_empty_last
     = Inr (ascii ''directions: boil'', [],
            ascii ''directions: boil'' @ [0x0A] @ ascii ''directions:'')"
  by code_simp

text \<open>
  C1, as amended. When, in the lines of the cleaned text, the last line carrying
  \<^verbatim>\<open>title:\<close> is \<^verbatim>\<open>title: X\<close>, the last carrying \<^verbatim>\<open>ingredients:\<close> is
  \<^verbatim>\<open>ingredients: A -- B\<close> and the last carrying \<^verbatim>\<open>directions:\<close> is
  \<^verbatim>\<open>directions: step1 -- step2\<close>, the parser returns the title \<^verbatim>\<open>X\<close>, the
  description \<^verbatim>\<open>Ingredients: A, B\<close> and the two numbered steps.

  Containing the three lines is not enough: in the counterexample a fourth line
  \<^verbatim>\<open>title: Y\<close> follows them, and the returned title is \<^verbatim>\<open>Y\<close>.
\<close>

theorem three_marked_lines:
  assumes "python_unicode U"
    and "last_match U (ascii ''title:'') (lines_of (clean_special_tokens toks raw))
           = Some (ascii ''title: X'')"
    and "last_match U (ascii ''ingredients:'') (lines_of (clean_special_tokens toks raw))
           = Some (ascii ''ingredients: A -- B'')"
    and "last_match U (ascii ''directions:'') (lines_of (clean_special_tokens toks raw))
           = Some (ascii ''directions: step1 -- step2'')"
  shows "parse_recipe_output U toks raw =
           Inr (ascii ''X'', ascii ''Ingredients: A, B'',
                ascii ''1. Step1'' @ [0x0A] @ ascii ''2. Step2'')"
proof -
  from assms(2) have ne: "lines_of (clean_special_tokens toks raw) \<noteq> []"
    by (auto dest: last_match_in)
  have cap: "capitalize U (ascii s) = ascii_capitalize (ascii s)"
    if "list_all (\<lambda>c. 0 \<le> c \<and> c < 0x80) (ascii s)" for s
    using assms(1) that by (simp add: python_unicode_def)
  have t: "str_or (after_colon (ascii ''title: X'')) (ascii ''Untitled Recipe'') = ascii ''X''"
    and tn: "ascii ''X'' \<noteq> ascii ''Untitled Recipe''"
    by code_simp+
  have pi: "pieces (after_colon (ascii ''ingredients: A -- B'')) = [ascii ''A'', ascii ''B'']"
    and pd: "pieces (after_colon (ascii ''directions: step1 -- step2''))
               = [ascii ''step1'', ascii ''step2'']"
    by code_simp+
  have c: "capitalize U (ascii ''A'') = ascii ''A''" "capitalize U (ascii ''B'') = ascii ''B''"
    "capitalize U (ascii ''step1'') = ascii ''Step1''"
    "capitalize U (ascii ''step2'') = ascii ''Step2''"
  proof -
    have a: "list_all (\<lambda>c. 0 \<le> c \<and> c < 0x80) (ascii ''A'')"
      "list_all (\<lambda>c. 0 \<le> c \<and> c < 0x80) (ascii ''B'')"
      "list_all (\<lambda>c. 0 \<le> c \<and> c < 0x80) (ascii ''step1'')"
      "list_all (\<lambda>c. 0 \<le> c \<and> c < 0x80) (ascii ''step2'')"
      by code_simp+
    have e: "ascii_capitalize (ascii ''A'') = ascii ''A''"
      "ascii_capitalize (ascii ''B'') = ascii ''B''"
      "ascii_capitalize (ascii ''step1'') = ascii ''Step1''"
      "ascii_capitalize (ascii ''step2'') = ascii ''Step2''"
      by code_simp+
    from a e show "capitalize U (ascii ''A'') = ascii ''A''"
      "capitalize U (ascii ''B'') = ascii ''B''"
      "capitalize U (ascii ''step1'') = ascii ''Step1''"
      "capitalize U (ascii ''step2'') = ascii ''Step2''"
      by (simp_all only: cap)
  qed
  have i: "segments U (after_colon (ascii ''ingredients: A -- B'')) = [ascii ''A'', ascii ''B'']"
    by (simp add: segments_pieces pi c)
  have d: "segments U (after_colon (ascii ''directions: step1 -- step2''))
      = [ascii ''Step1'', ascii ''Step2'']"
    by (simp add: segments_pieces pd c)
  have j: "take 200 (ascii ''Ingredients: '' @ join (ascii '', '') (take 6 [ascii ''A'', ascii ''B'']))
      = ascii ''Ingredients: A, B''"
    and n: "numbered [ascii ''Step1'', ascii ''Step2'']
      = ascii ''1. Step1'' @ [0x0A] @ ascii ''2. Step2''"
    and x: "take 80 (ascii ''X'') = ascii ''X''"
    by code_simp+
  show ?thesis
    unfolding parse_eq [OF assms(1)] Let_def scan_result_def
    by (simp only: ne assms(2-4) option.case prod.case t tn i d list.distinct
        not_False_eq_True if_True if_False j n x)
qed

theorem three_marked_lines_witness:
  "python_unicode ascii_tables
   \<and> parse_recipe_output ascii_tables example_tokens raw_three_lines =
       Inr (ascii ''X'', ascii ''Ingredients: A, B'',
            ascii ''1. Step1'' @ [0x0A] @ ascii ''2. Step2'')"
proof -
  have "last_match ascii_tables (ascii ''title:'')
          (lines_of (clean_special_tokens example_tokens raw_three_lines))
          = Some (ascii ''title: X'')"
    and "last_match ascii_tables (ascii ''ingredients:'')
          (lines_of (clean_special_tokens example_tokens raw_three_lines))
          = Some (ascii ''ingredients: A -- B'')"
    and "last_match ascii_tables (ascii ''directions:'')
          (lines_of (clean_special_tokens example_tokens raw_three_lines))
          = Some (ascii ''directions: step1 -- step2'')"
    by code_simp+
  with ascii_tables_ok have "parse_recipe_output ascii_tables example_tokens raw_three_lines =
       Inr (ascii ''X'', ascii ''Ingredients: A, B'',
            ascii ''1. Step1'' @ [0x0A] @ ascii ''2. Step2'')"
    by (rule three_marked_lines)
  with ascii_tables_ok show ?thesis by simp
qed

theorem three_marked_lines_counterexample:
  "ascii ''title: X'' \<in> set (split raw_second_title [0x0A])
   \<and> ascii ''ingredients: A -- B'' \<in> set (split raw_second_title [0x0A])
   \<and> ascii ''directions: step1 -- step2'' \<in> set (split raw_second_title [0x0A])
   \<and> parse_recipe_output ascii_tables example_tokens raw_second_title
       = Inr (ascii ''Y'', ascii ''Ingredients: A, B'',
              ascii ''1. Step1'' @ [0x0A] @ ascii ''2. Step2'')"
  by code_simp

section \<open>Properties of the collecting loop\<close>

text \<open>
  C4. Whatever the raw outputs, the loop returns a dictionary, no two recipes of which
  have the same lower-cased title, and each recipe of which is the one parsed from the
  first raw output with its key. For the outputs titled \<^verbatim>\<open>Soup\<close> and \<^verbatim>\<open>soup\<close> the
  result is the single recipe \<^verbatim>\<open>Soup\<close>.
\<close>

theorem collected_titles_distinct:
  "python_unicode U \<Longrightarrow>
   \<exists>d w'. collect_recipes U toks uuid4 raws [] w = (Inr d, w')
     \<and> distinct (map (\<lambda>r. lower U (title r)) (map snd d))
     \<and> list_all (from_first U toks raws) d"
proof -
  assume U: "python_unicode U"
  from collect_recipes_inv [OF U, of "[]" toks uuid4 raws w] obtain d w' where
    c: "collect_recipes U toks uuid4 raws [] w = (Inr d, w')"
    and m: "map fst d = take 3 (first_seen (map (title_key U toks) raws))"
    and f: "list_all (from_first U toks raws) d"
    by auto
  from f have e: "map (\<lambda>r. lower U (title r)) (map snd d) = map fst d"
    by (auto simp: list_all_iff from_first_def)
  have "distinct (map fst d)"
    unfolding m by (rule distinct_take) (rule distinct_first_seen)
  then have "distinct (map (\<lambda>r. lower U (title r)) (map snd d))"
    by (simp only: e)
  with c f show ?thesis by blast
qed

theorem collected_titles_distinct_witness:
  "python_unicode ascii_tables
   \<and> collect_recipes ascii_tables example_tokens example_uuid4 raw_soups [] world0 =
     (Inr [(ascii ''soup'',
            \<lparr>recipe_id = ascii ''uuid-0'', title = ascii ''Soup'', shortDescription = [],
               instructions = ascii ''title: Soup''\<rparr>)],
      world0\<lparr>uuids_drawn := 1\<rparr>)
   \<and> distinct (map (\<lambda>r. lower ascii_tables (title r))
        [\<lparr>recipe_id = ascii ''uuid-0'', title = ascii ''Soup'', shortDescription = [],
           instructions = ascii ''title: Soup''\<rparr>])"
proof -
  have c: "collect_recipes ascii_tables example_tokens example_uuid4 raw_soups [] world0 =
     (Inr [(ascii ''soup'',
            \<lparr>recipe_id = ascii ''uuid-0'', title = ascii ''Soup'', shortDescription = [],
               instructions = ascii ''title: Soup''\<rparr>)],
      world0\<lparr>uuids_drawn := 1\<rparr>)"
    by code_simp
  from collected_titles_distinct [OF ascii_tables_ok, of example_tokens example_uuid4 raw_soups world0]
    c ascii_tables_ok
  show ?thesis by simp
qed

text \<open>
  C5. Whatever the number of raw outputs, the loop returns at most three recipes; their
  keys are the first three keys of the raw outputs in the order of their first
  occurrences; and once three recipes are collected, any further raw outputs change
  neither the result nor the state.
\<close>

theorem collect_at_most_three:
  "python_unicode U \<Longrightarrow>
   \<exists>d w'. collect_recipes U toks uuid4 raws [] w = (Inr d, w')
     \<and> length d \<le> 3
     \<and> map (\<lambda>r. lower U (title r)) (map snd d)
         = take 3 (first_seen (map (title_key U toks) raws))
     \<and> (length d = 3 \<longrightarrow>
          (\<forall>ignored. collect_recipes U toks uuid4 (raws @ ignored) [] w = (Inr d, w')))"
proof -
  assume U: "python_unicode U"
  from collect_recipes_inv [OF U, of "[]" toks uuid4 raws w] obtain d w' where
    c: "collect_recipes U toks uuid4 raws [] w = (Inr d, w')"
    and m: "map fst d = take 3 (first_seen (map (title_key U toks) raws))"
    and f: "list_all (from_first U toks raws) d"
    by auto
  from f have "map (\<lambda>r. lower U (title r)) (map snd d) = map fst d"
    by (auto simp: list_all_iff from_first_def)
  with m have o: "map (\<lambda>r. lower U (title r)) (map snd d)
      = take 3 (first_seen (map (title_key U toks) raws))"
    by simp
  have "length (map fst d) \<le> 3" unfolding m by simp
  then have l: "length d \<le> 3" by simp
  have "collect_recipes U toks uuid4 (raws @ ignored) [] w = (Inr d, w')"
    if "length d = 3" for ignored
    using collect_recipes_full [OF U, of "[]" toks uuid4 raws w d w' ignored] c that by simp
  with c o l show ?thesis by blast
qed

theorem collect_at_most_three_witness:
  "python_unicode ascii_tables
   \<and> map fst (projr (fst (collect_recipes ascii_tables example_tokens example_uuid4
                          raw_four_dishes [] world0)))
     = [ascii ''soup'', ascii ''stew'', ascii ''pie'']
   \<and> collect_recipes ascii_tables example_tokens example_uuid4
       (raw_four_dishes @ [ascii ''title: Cake'']) [] world0
     = collect_recipes ascii_tables example_tokens example_uuid4 raw_four_dishes [] world0"
proof -
  have k: "map fst (projr (fst (collect_recipes ascii_tables example_tokens example_uuid4
                                 raw_four_dishes [] world0)))
     = [ascii ''soup'', ascii ''stew'', ascii ''pie'']"
    by code_simp
  from collect_at_most_three [OF ascii_tables_ok, of example_tokens example_uuid4 raw_four_dishes world0]
  obtain d w' where
    c: "collect_recipes ascii_tables example_tokens example_uuid4 raw_four_dishes [] world0
          = (Inr d, w')"
    and i: "length d = 3 \<longrightarrow>
          (\<forall>ignored. collect_recipes ascii_tables example_tokens example_uuid4
                       (raw_four_dishes @ ignored) [] world0 = (Inr d, w'))"
    by blast
  from k c have "length (map fst d) = 3" by (simp add: ascii_def)
  then have "length d = 3" by simp
  with i c k ascii_tables_ok show ?thesis by simp
qed

section \<open>Properties of the request handler\<close>

text \<open>
  C6. A request whose ingredient list is empty, or holds only entries that are empty
  after trimming, is answered with status 400, and the state after it is the state
  before it: no prompt is given to the generator, no identifier is drawn and nothing
  is logged. The answer does not depend on the generator. The example has an entry
  that is a no-break space (U+00A0), one that is a space, and an empty one.
\<close>

theorem no_ingredients_400:
  assumes "ingredients req = [] \<or> (\<forall>ing \<in> set (ingredients req). strip ing = [])"
  shows "generate_recipes U toks gen uuid4 req w =
           (HTTPException 400
              (if ingredients req = []
               then ascii ''No ingredients provided. Please provide at least one ingredient.''
               else ascii ''No valid ingredients found after cleaning.''), w)"
proof -
  from assms have "ingredients req \<noteq> [] \<Longrightarrow>
      filter (\<lambda>ing. ing \<noteq> [] \<and> strip ing \<noteq> []) (ingredients req) = []"
    by (auto simp: filter_empty_conv)
  then show ?thesis by (simp add: generate_recipes_def)
qed

theorem no_ingredients_400_witness:
  "generate_recipes ascii_tables example_tokens example_generator example_uuid4
       \<lparr>ingredients = [[0xA0], ascii '' '', []]\<rparr> world0 =
     (HTTPException 400 (ascii ''No valid ingredients found after cleaning.''), world0)"
proof -
  have "\<forall>ing \<in> set (ingredients \<lparr>ingredients = [[0xA0], ascii '' '', []]\<rparr>). strip ing = []"
    by code_simp
  then show ?thesis
    using no_ingredients_400 [of "\<lparr>ingredients = [[0xA0], ascii '' '', []]\<rparr>"
        ascii_tables example_tokens example_generator example_uuid4 world0]
    by simp
qed

text \<open>
  C7, as amended. Normalization trims each entry, lower-cases it and drops the entries
  that are empty after trimming; it keeps the order and keeps duplicates, one
  normalized entry for each entry that is not blank. The prompt given to the generator
  is \<^verbatim>\<open>items: \<close> followed by the normalized entries joined with a comma and a space.
  The list \<^verbatim>\<open>["Tomato", "  ", "cheese"]\<close> normalizes to \<^verbatim>\<open>["tomato", "cheese"]\<close> and
  gives the prompt \<^verbatim>\<open>items: tomato, cheese\<close>.

  The claim as stated has the entries deduplicated; the handler has no such step, and
  \<^verbatim>\<open>["Tomato", "tomato "]\<close> gives the prompt \<^verbatim>\<open>items: tomato, tomato\<close>.
\<close>

theorem prompt_from_normalized:
  assumes "normalized U (ingredients req) \<noteq> []"
  shows "generator_calls (snd (generate_recipes U toks gen uuid4 req w)) =
           generator_calls w
             @ [ascii ''items: '' @ join (ascii '', '') (normalized U (ingredients req))]
         \<and> length (normalized U (ingredients req))
             = length (filter (\<lambda>ing. strip ing \<noteq> []) (ingredients req))"
  using assms by (simp add: generate_recipes_calls) (simp add: normalized_def)

theorem prompt_from_normalized_witness:
  "normalized ascii_tables [ascii ''Tomato'', ascii ''  '', ascii ''cheese'']
     = [ascii ''tomato'', ascii ''cheese'']
   \<and> generator_calls
        (snd (generate_recipes ascii_tables example_tokens example_generator example_uuid4
                \<lparr>ingredients = [ascii ''Tomato'', ascii ''  '', ascii ''cheese'']\<rparr> world0))
     = [ascii ''items: tomato, cheese'']"
proof -
  let ?req = "\<lparr>ingredients = [ascii ''Tomato'', ascii ''  '', ascii ''cheese'']\<rparr>"
  have n: "normalized ascii_tables [ascii ''Tomato'', ascii ''  '', ascii ''cheese'']
      = [ascii ''tomato'', ascii ''cheese'']"
    by code_simp
  have ne: "normalized ascii_tables (ingredients ?req) \<noteq> []"
    by code_simp
  have q: "generator_calls world0
      @ [ascii ''items: '' @ join (ascii '', '') (normalized ascii_tables (ingredients ?req))]
      = [ascii ''items: tomato, cheese'']"
    by code_simp
  from prompt_from_normalized [OF ne, of example_tokens example_generator example_uuid4 world0]
  have "generator_calls
        (snd (generate_recipes ascii_tables example_tokens example_generator example_uuid4
                ?req world0))
      = generator_calls world0
      @ [ascii ''items: '' @ join (ascii '', '') (normalized ascii_tables (ingredients ?req))]"
    by (rule conjunct1)
  with n show ?thesis by (simp only: q)
qed

theorem duplicates_kept_counterexample:
  "generator_calls
     (snd (generate_recipes ascii_tables example_tokens example_generator example_uuid4
             \<lparr>ingredients = [ascii ''Tomato'', ascii ''tomato '']\<rparr> world0))
     = [ascii ''items: tomato, tomato'']"
  by code_simp

section \<open>Order of the token removals\<close>

text \<open>
  C8, as amended. The tokens are removed one after the other, in the order in which the
  loop visits the set. When every token is a bracketed token and the raw text is flat,
  any two orders of the same tokens give the same cleaned text and the same parsed
  triple.

  Without the condition on the text the order matters, also for tokens that do not
  overlap: removing \<^verbatim>\<open></s>\<close> from \<^verbatim>\<open><p</s>ad>\<close> leaves \<^verbatim>\<open><pad>\<close>, which is removed
  when \<^verbatim>\<open><pad>\<close> comes second and stays when it came first.
\<close>

theorem stripping_order_independent:
  assumes "list_all bracketed toks" and "mset toks = mset toks'" and "flat raw"
  shows "clean_special_tokens toks raw = clean_special_tokens toks' raw
       \<and> parse_recipe_output U toks raw = parse_recipe_output U toks' raw"
proof -
  from assms(1) have "\<forall>t \<in> set toks. bracketed t" by (simp add: list_all_iff)
  moreover from assms(3)
  have "flat_from False
          (replace (replace raw (ascii ''<section>'') [0x0A]) (ascii ''<sep>'') (ascii ''--''))"
    by (rule flat_markers)
  ultimately have
    "foldl (\<lambda>text tok. replace text tok [])
       (replace (replace raw (ascii ''<section>'') [0x0A]) (ascii ''<sep>'') (ascii ''--'')) toks
     = foldl (\<lambda>text tok. replace text tok [])
       (replace (replace raw (ascii ''<section>'') [0x0A]) (ascii ''<sep>'') (ascii ''--'')) toks'"
    using assms(2) by (intro strip_tokens_permuted)
  then have "clean_special_tokens toks raw = clean_special_tokens toks' raw"
    by (simp add: clean_special_tokens_def Let_def)
  then show ?thesis by (simp add: parse_recipe_output_def)
qed

theorem stripping_order_independent_witness:
  "clean_special_tokens example_tokens raw_with_tokens
     = clean_special_tokens (rev example_tokens) raw_with_tokens
   \<and> parse_recipe_output ascii_tables example_tokens raw_with_tokens
     = Inr (ascii ''Soup'', [], ascii ''1. Boil'' @ [0x0A] @ ascii ''2. Serve'')
   \<and> parse_recipe_output ascii_tables (rev example_tokens) raw_with_tokens
     = Inr (ascii ''Soup'', [], ascii ''1. Boil'' @ [0x0A] @ ascii ''2. Serve'')"
proof -
  have b: "list_all bracketed example_tokens" by code_simp
  have m: "mset example_tokens = mset (rev example_tokens)" by simp
  have f: "flat raw_with_tokens" by code_simp
  have p: "parse_recipe_output ascii_tables example_tokens raw_with_tokens
     = Inr (ascii ''Soup'', [], ascii ''1. Boil'' @ [0x0A] @ ascii ''2. Serve'')"
    by code_simp
  from stripping_order_independent [OF b m f, of ascii_tables] p show ?thesis by simp
qed

theorem stripping_order_counterexample:
  "non_overlapping [ascii ''</s>'', ascii ''<pad>'']
   \<and> clean_special_tokens [ascii ''</s>'', ascii ''<pad>''] raw_split_pad = []
   \<and> clean_special_tokens [ascii ''<pad>'', ascii ''</s>''] raw_split_pad = ascii ''<pad>''
   \<and> parse_recipe_output ascii_tables [ascii ''</s>'', ascii ''<pad>''] raw_split_pad
       = Inr (ascii ''Untitled Recipe'', [], [])
   \<and> parse_recipe_output ascii_tables [ascii ''<pad>'', ascii ''</s>''] raw_split_pad
       = Inr (ascii ''<pad>'', [], ascii ''<pad>'')"
  by code_simp

end
